theory Spec2Isabelle
  imports Main "HOL-Library.Sublist"
begin

section \<open>Strings and the regular expressions of the source\<close>

text \<open>
  Commit messages, hashes, file paths and package names are JavaScript strings; they are
  modelled as \<^typ>\<open>string\<close>. Every character the source's regular expressions tell apart
  (letters, digits, \<open>_\<close>, \<open>(\<close>, \<open>)\<close>, \<open>!\<close>, \<open>:\<close>, line feed, carriage return) is a
  \<^typ>\<open>char\<close>; the two further line terminators of JavaScript, U+2028 and U+2029, lie
  outside the 8-bit range of \<^typ>\<open>char\<close> and do not occur in the model.
\<close>

definition startsWith :: "string \<Rightarrow> string \<Rightarrow> bool" where
  \<comment> \<open>\<open>s.startsWith(p)\<close>\<close>
  "startsWith s p = (take (length p) s = p)"

fun includesStr :: "string \<Rightarrow> string \<Rightarrow> bool" where
  \<comment> \<open>\<open>s.includes(p)\<close>: \<open>p\<close> occurs somewhere in \<open>s\<close>\<close>
  "includesStr [] p = (p = [])"
| "includesStr (c # s) p = (startsWith (c # s) p \<or> includesStr s p)"

datatype cls = Dot | Word

definition lineTerminator :: "char \<Rightarrow> bool" where
  "lineTerminator c = (c = CHR 0x0A \<or> c = CHR 0x0D)"

definition wordChar :: "char \<Rightarrow> bool" where
  \<comment> \<open>\<open>\w\<close> is \<open>[A-Za-z0-9_]\<close>\<close>
  "wordChar c = (c \<in> set ''abcdefghijklmnopqrstuvwxyzABCDEFGHIJKLMNOPQRSTUVWXYZ0123456789_'')"

fun in_cls :: "cls \<Rightarrow> char \<Rightarrow> bool" where
  "in_cls Dot c = (\<not> lineTerminator c)"
| "in_cls Word c = wordChar c"

text \<open>
  The fragment of regular expressions the source uses: literal text, a greedy \<open>*\<close> or
  \<open>+\<close> over a character class (\<open>.\<close> or \<open>\w\<close>), a greedy \<open>?\<close>, and concatenation.
  Groups only delimit the operand of \<open>?\<close>, so they need no constructor.
\<close>

datatype regex =
    Lit string
  | Star cls
  | Plus cls
  | Opt regex
  | Seq regex regex

text \<open>
  A backtracking matcher: \<open>run r s\<close> lists, in the order a backtracking engine tries them,
  what is left of \<open>s\<close> after each way \<open>r\<close> can match a prefix of \<open>s\<close>. Greedy operators try
  the longest match first.
\<close>

fun repeat :: "cls \<Rightarrow> string \<Rightarrow> string list" where
  "repeat C [] = [[]]"
| "repeat C (c # s) = (if in_cls C c then repeat C s @ [c # s] else [c # s])"

fun run :: "regex \<Rightarrow> string \<Rightarrow> string list" where
  "run (Lit p) s = (if startsWith s p then [drop (length p) s] else [])"
| "run (Star C) s = repeat C s"
| "run (Plus C) s = (case s of [] \<Rightarrow> [] | c # t \<Rightarrow> if in_cls C c then repeat C t else [])"
| "run (Opt r) s = run r s @ [s]"
| "run (Seq r1 r2) s = concat (map (run r2) (run r1 s))"

definition matchesAtStart :: "regex \<Rightarrow> string \<Rightarrow> bool" where
  \<comment> \<open>\<open>s.match(/^r/)\<close> is not null\<close>
  "matchesAtStart r s = (run r s \<noteq> [])"

section \<open>Data model\<close>

record commit =
  commitHash :: string
  commitMessage :: string

record conventional_messages_to_commits =
  changelogMessage :: string
  commitHashes :: "string list"

record commit_type =
  ct_type :: string
  ct_section :: string

definition defaultCommitTypes :: "commit_type list" where
  "defaultCommitTypes =
    [\<lparr>ct_type = ''feat'', ct_section = ''Features''\<rparr>,
     \<lparr>ct_type = ''feature'', ct_section = ''Features''\<rparr>,
     \<lparr>ct_type = ''fix'', ct_section = ''Bug Fixes''\<rparr>,
     \<lparr>ct_type = ''perf'', ct_section = ''Performance Improvements''\<rparr>,
     \<lparr>ct_type = ''revert'', ct_section = ''Reverts''\<rparr>,
     \<lparr>ct_type = ''docs'', ct_section = ''Documentation''\<rparr>,
     \<lparr>ct_type = ''style'', ct_section = ''Styles''\<rparr>,
     \<lparr>ct_type = ''chore'', ct_section = ''Miscellaneous Chores''\<rparr>,
     \<lparr>ct_type = ''refactor'', ct_section = ''Code Refactoring''\<rparr>,
     \<lparr>ct_type = ''test'', ct_section = ''Tests''\<rparr>,
     \<lparr>ct_type = ''build'', ct_section = ''Build System''\<rparr>,
     \<lparr>ct_type = ''ci'', ct_section = ''Continuous Integration''\<rparr>]"

section \<open>Conventional and breaking messages\<close>

text \<open>
  \<open>isConventionalCommit\<close> builds its pattern from the template literal
  \<^verbatim>\<open>`^${commitType.type}(?:\(.*\))?!?:`\<close>. In a template literal \<^verbatim>\<open>\(\<close> and \<^verbatim>\<open>\)\<close> are
  escapes of the string, not of the pattern: the text handed to \<open>new RegExp\<close> is
  \<^verbatim>\<open>^feat(?:(.*))?!?:\<close>, where the parentheses group and \<open>.*\<close> matches any run of
  characters of one line.
\<close>

definition conventionalPattern :: "string \<Rightarrow> regex" where
  "conventionalPattern t = Seq (Lit t) (Seq (Opt (Star Dot)) (Seq (Opt (Lit ''!'')) (Lit '':'')))"

definition isConventionalCommit :: "string \<Rightarrow> bool" where
  "isConventionalCommit commit =
     list_ex (\<lambda>commitType. matchesAtStart (conventionalPattern (ct_type commitType)) commit)
       defaultCommitTypes"

section \<open>The commit grouper\<close>

definition reducer ::
  "conventional_messages_to_commits list \<Rightarrow> commit \<Rightarrow> conventional_messages_to_commits list" where
  \<comment> \<open>the callback of \<open>commits.reduce\<close>\<close>
  "reducer acc cur =
    (if acc = [] then
       [\<lparr>changelogMessage = commitMessage cur, commitHashes = [commitHash cur]\<rparr>]
     else if isConventionalCommit (commitMessage cur) then
       (if isConventionalCommit (changelogMessage (last acc)) then
          acc @ [\<lparr>changelogMessage = commitMessage cur, commitHashes = [commitHash cur]\<rparr>]
        else
          butlast acc @
            [\<lparr>changelogMessage = commitMessage cur,
              commitHashes = commitHashes (last acc) @ [commitHash cur]\<rparr>])
     else
       butlast acc @ [(last acc)\<lparr>commitHashes := commitHashes (last acc) @ [commitHash cur]\<rparr>])"

definition associateCommitsToConventionalCommitMessages ::
  "commit list \<Rightarrow> conventional_messages_to_commits list" where
  "associateCommitsToConventionalCommitMessages commits = foldl reducer [] commits"

section \<open>The release classifier\<close>

datatype version_type = Major | Minor | Patch | NoVersion
  \<comment> \<open>\<open>'major' | 'minor' | 'patch' | 'none'\<close>, the \<open>VersionType\<close> of a changeset release\<close>

record release_rule =
  breaking :: bool
  revert :: bool
  rule_type :: "string option"
  release :: "version_type option"

text \<open>
  An absent \<open>breaking\<close> or \<open>revert\<close> is \<open>False\<close> (the source only tests their truthiness),
  an absent \<open>type\<close> is \<open>None\<close>, and \<open>release: undefined\<close> is \<open>None\<close>. The type of the
  source keeps \<open>'none'\<close> out of a rule; the classifier would pass it on like any severity.
\<close>

definition typeRule :: "string \<Rightarrow> version_type \<Rightarrow> release_rule" where
  "typeRule t r = \<lparr>breaking = False, revert = False, rule_type = Some t, release = Some r\<rparr>"

definition defaultReleaseRules :: "release_rule list" where
  "defaultReleaseRules =
    [\<lparr>breaking = True, revert = False, rule_type = None, release = Some Major\<rparr>,
     \<lparr>breaking = False, revert = True, rule_type = None, release = Some Patch\<rparr>,
     typeRule ''feat'' Minor,
     typeRule ''feature'' Minor,
     typeRule ''fix'' Patch,
     typeRule ''perf'' Patch,
     typeRule ''revert'' Patch,
     typeRule ''docs'' Patch,
     typeRule ''style'' Patch,
     typeRule ''chore'' Patch,
     typeRule ''refactor'' Patch,
     typeRule ''test'' Patch,
     typeRule ''build'' Patch,
     typeRule ''ci'' Patch]"

text \<open>
  \<open>isBreakingChange\<close> uses the template literal \<^verbatim>\<open>`^${commitType.type}(?:\(.*\))?!:`\<close>,
  which reaches \<open>new RegExp\<close> as \<^verbatim>\<open>^feat(?:(.*))?!:\<close>.
\<close>

definition breakingPattern :: "string \<Rightarrow> regex" where
  "breakingPattern t = Seq (Lit t) (Seq (Opt (Star Dot)) (Seq (Lit ''!'') (Lit '':'')))"

definition isBreakingChange :: "string \<Rightarrow> bool" where
  "isBreakingChange commit =
     (includesStr commit ''BREAKING CHANGE:'' \<or>
      list_ex (\<lambda>commitType. matchesAtStart (breakingPattern (ct_type commitType)) commit)
        defaultCommitTypes)"

definition isRevertChange :: "string \<Rightarrow> bool" where
  "isRevertChange commit = startsWith commit ''revert''"

text \<open>
  \<open>getCommitType\<close> matches the regular expression literal \<^verbatim>\<open>/^(\w+)(\(.+\))?(!)?:/\<close> and
  returns its first group. Here the parentheses of the scope are escaped in the pattern
  itself. The engine tries the ways \<open>\w+\<close> can match, longest first, and keeps the first
  one after which the rest of the pattern matches; the group is what \<open>\w+\<close> consumed.
\<close>

definition commitTypeRest :: regex where
  \<comment> \<open>\<^verbatim>\<open>(\(.+\))?(!)?:\<close>\<close>
  "commitTypeRest =
     Seq (Opt (Seq (Lit ''('') (Seq (Plus Dot) (Lit '')''))))
         (Seq (Opt (Lit ''!'')) (Lit '':''))"

definition getCommitType :: "string \<Rightarrow> string option" where
  "getCommitType message =
     (case find (matchesAtStart commitTypeRest) (run (Plus Word) message) of
        None \<Rightarrow> None
      | Some rest \<Rightarrow> Some (take (length message - length rest) message))"

fun applyRules :: "string \<Rightarrow> string \<Rightarrow> release_rule list \<Rightarrow> version_type option" where
  \<comment> \<open>the \<open>for (const rule of releaseRules)\<close> loop; falling out of it returns \<open>undefined\<close>\<close>
  "applyRules message commitType [] = None"
| "applyRules message commitType (rule # rules) =
     (if breaking rule \<and> isBreakingChange message then release rule
      else if revert rule \<and> isRevertChange message then release rule
      else if (case rule_type rule of None \<Rightarrow> False | Some t \<Rightarrow> t \<noteq> [] \<and> t = commitType)
        then release rule
      else applyRules message commitType rules)"

definition determineReleaseType :: "string \<Rightarrow> release_rule list option \<Rightarrow> version_type option" where
  \<comment> \<open>the second argument is optional; when absent the default table is used\<close>
  "determineReleaseType message rulesArg =
     (case getCommitType message of
        None \<Rightarrow> None
      | Some commitType \<Rightarrow>
          if commitType = [] then None
          else applyRules message commitType
                 (case rulesArg of None \<Rightarrow> defaultReleaseRules | Some rules \<Rightarrow> rules))"

section \<open>The package impact resolver\<close>

text \<open>
  An ignore pattern is a string or a \<open>RegExp\<close> object. \<open>file.match(pattern)\<close> uses a
  \<open>RegExp\<close> as it is and compiles a string with \<open>new RegExp\<close> first, which throws a
  \<open>SyntaxError\<close> when the string is not a regular expression; the source catches nothing, so
  the error ends the call. The regular expression engine is not part of this code: compiling
  a string and matching a file are parameters of the model, as are the two git queries (the
  repository root and the files changed between two commits), which stand for git commands
  that succeed.
\<close>

datatype error = SyntaxError

datatype 're pattern = PString string | PRegExp 're

record 're environment =
  regExpCreate :: "string \<Rightarrow> 're option"
  regExpMatch :: "'re \<Rightarrow> string \<Rightarrow> bool"
  getRepoRoot :: string
  getFilesChangedSince :: "string \<Rightarrow> string \<Rightarrow> string list"

definition jsMatch :: "'re environment \<Rightarrow> string \<Rightarrow> 're pattern \<Rightarrow> error + bool" where
  \<comment> \<open>\<open>file.match(pattern)\<close>: \<open>Inr True\<close> for a match, \<open>Inr False\<close> for \<open>null\<close>\<close>
  "jsMatch env file pattern =
     (case pattern of
        PRegExp re \<Rightarrow> Inr (regExpMatch env re file)
      | PString text \<Rightarrow>
          (case regExpCreate env text of
             None \<Rightarrow> Inl SyntaxError
           | Some re \<Rightarrow> Inr (regExpMatch env re file)))"

record package_json =
  pkg_name :: string

record many_pkg_package =
  dir :: string
  packageJson :: package_json

fun replaceFirst :: "string \<Rightarrow> string \<Rightarrow> string \<Rightarrow> string" where
  \<comment> \<open>\<open>s.replace(p, r)\<close> for a string \<open>p\<close>: the first occurrence of \<open>p\<close> becomes \<open>r\<close>\<close>
  "replaceFirst p r [] = (if p = [] then r else [])"
| "replaceFirst p r (c # s) =
     (if startsWith (c # s) p then r @ drop (length p) (c # s) else c # replaceFirst p r s)"

fun noPatternMatches :: "'re environment \<Rightarrow> string \<Rightarrow> 're pattern list \<Rightarrow> error + bool" where
  \<comment> \<open>\<open>ignoredPatterns.every((pattern) => !file.match(pattern))\<close>: stops at the first match\<close>
  "noPatternMatches env file [] = Inr True"
| "noPatternMatches env file (pattern # patterns) =
     (case jsMatch env file pattern of
        Inl e \<Rightarrow> Inl e
      | Inr found \<Rightarrow> if found then Inr False else noPatternMatches env file patterns)"

fun filterFiles :: "'re environment \<Rightarrow> string list \<Rightarrow> 're pattern list \<Rightarrow> error + string list" where
  "filterFiles env [] ignoredPatterns = Inr []"
| "filterFiles env (file # files) ignoredPatterns =
     (case noPatternMatches env file ignoredPatterns of
        Inl e \<Rightarrow> Inl e
      | Inr keep \<Rightarrow>
          (case filterFiles env files ignoredPatterns of
             Inl e \<Rightarrow> Inl e
           | Inr kept \<Rightarrow> Inr (if keep then file # kept else kept)))"

fun someFileMatches :: "'re environment \<Rightarrow> string list \<Rightarrow> 're pattern \<Rightarrow> error + bool" where
  \<comment> \<open>\<open>filesChanged.some((file) => file.match(pattern))\<close>: stops at the first match\<close>
  "someFileMatches env [] pattern = Inr False"
| "someFileMatches env (file # files) pattern =
     (case jsMatch env file pattern of
        Inl e \<Rightarrow> Inl e
      | Inr found \<Rightarrow> if found then Inr True else someFileMatches env files pattern)"

definition packagePattern :: "'re environment \<Rightarrow> many_pkg_package \<Rightarrow> 're pattern" where
  \<comment> \<open>\<open>pkg.dir.replace(`${repoRoot}/`, '')\<close> is a string, so \<open>file.match\<close> compiles it\<close>
  "packagePattern env pkg = PString (replaceFirst (getRepoRoot env @ ''/'') [] (dir pkg))"

fun getChangedPackages ::
  "'re environment \<Rightarrow> string list \<Rightarrow> many_pkg_package list \<Rightarrow> error + many_pkg_package list" where
  "getChangedPackages env filesChanged [] = Inr []"
| "getChangedPackages env filesChanged (pkg # pkgs) =
     (case someFileMatches env filesChanged (packagePattern env pkg) of
        Inl e \<Rightarrow> Inl e
      | Inr touched \<Rightarrow>
          (case getChangedPackages env filesChanged pkgs of
             Inl e \<Rightarrow> Inl e
           | Inr changed \<Rightarrow> Inr (if touched then pkg # changed else changed)))"

section \<open>The changeset assembler\<close>

text \<open>
  A release is a JavaScript object. \<open>JSON.stringify\<close>, which the deduplication applies to
  releases, writes the properties of an object in the object's own order, so an object is
  modelled as the list of its properties in that order. The values of \<open>name\<close> and \<open>type\<close> are
  strings, and so are the values of the model's objects.
\<close>

type_synonym js_object = "(string \<times> string) list"

fun versionString :: "version_type \<Rightarrow> string" where
  "versionString Major = ''major''"
| "versionString Minor = ''minor''"
| "versionString Patch = ''patch''"
| "versionString NoVersion = ''none''"

definition releaseObject :: "string \<Rightarrow> version_type \<Rightarrow> js_object" where
  \<comment> \<open>the object literal \<open>{ name: ..., type: ... }\<close> of the assembler\<close>
  "releaseObject n t = [(''name'', n), (''type'', versionString t)]"

record changeset =
  releases :: "js_object list"
  summary :: string

record generated_changeset = changeset +
  packagesChanged :: "many_pkg_package list"

record 're options =
  ignoredFiles :: "'re pattern list option"
  packages :: "many_pkg_package list"
  releaseRules :: "release_rule list option"

definition firstHash :: "string list \<Rightarrow> string" where
  \<comment> \<open>\<open>commitHashes[0]\<close> inside the command text; \<open>undefined\<close> prints as its name\<close>
  "firstHash hs = (case hs of [] \<Rightarrow> ''undefined'' | h # _ \<Rightarrow> h)"

definition lastHash :: "string list \<Rightarrow> string" where
  \<comment> \<open>\<open>commitHashes[commitHashes.length - 1]\<close>\<close>
  "lastHash hs = (if hs = [] then ''undefined'' else last hs)"

definition toChangeset ::
  "'re environment \<Rightarrow> 're options \<Rightarrow> conventional_messages_to_commits
     \<Rightarrow> error + generated_changeset option" where
  \<comment> \<open>the callback of \<open>.map\<close>; \<open>null\<close> is \<open>None\<close>\<close>
  "toChangeset env opts entry =
     (case filterFiles env
             (getFilesChangedSince env (firstHash (commitHashes entry)) (lastHash (commitHashes entry)))
             (case ignoredFiles opts of None \<Rightarrow> [] | Some ps \<Rightarrow> ps) of
        Inl e \<Rightarrow> Inl e
      | Inr filesChanged \<Rightarrow>
          (case getChangedPackages env filesChanged (packages opts) of
             Inl e \<Rightarrow> Inl e
           | Inr changed \<Rightarrow>
               if length changed = 0 then Inr None
               else (case determineReleaseType (changelogMessage entry) (releaseRules opts) of
                       None \<Rightarrow> Inr None
                     | Some releaseType \<Rightarrow>
                         Inr (Some
                           \<lparr>releases = map (\<lambda>pkg. releaseObject (pkg_name (packageJson pkg)) releaseType) changed,
                            summary = changelogMessage entry,
                            packagesChanged = changed\<rparr>))))"

fun mapEntries ::
  "'re environment \<Rightarrow> 're options \<Rightarrow> conventional_messages_to_commits list
     \<Rightarrow> error + generated_changeset option list" where
  \<comment> \<open>\<open>.map\<close> calls the callback entry by entry; an error ends it\<close>
  "mapEntries env opts [] = Inr []"
| "mapEntries env opts (entry # entries) =
     (case toChangeset env opts entry of
        Inl e \<Rightarrow> Inl e
      | Inr r \<Rightarrow>
          (case mapEntries env opts entries of
             Inl e \<Rightarrow> Inl e
           | Inr rs \<Rightarrow> Inr (r # rs)))"


section \<open>Deduplication against the persisted changesets\<close>

text \<open>
  \<open>compareChangeSet\<close> compares the releases through \<open>JSON.stringify\<close>. The serialisation of
  an array of objects is written out: keys and values are quoted with the escapes of
  \<open>JSON.stringify\<close>, properties and elements are separated by commas, and nothing is padded.
\<close>

definition dquote :: char where
  "dquote = CHR 0x22"

definition backslash :: char where
  "backslash = CHR 0x5C"

definition hexDigit :: "nat \<Rightarrow> char" where
  "hexDigit n = ''0123456789abcdef'' ! n"

definition quoteChar :: "char \<Rightarrow> string" where
  "quoteChar c =
     (if c = CHR 0x08 then [backslash, CHR ''b'']
      else if c = CHR 0x09 then [backslash, CHR ''t'']
      else if c = CHR 0x0A then [backslash, CHR ''n'']
      else if c = CHR 0x0C then [backslash, CHR ''f'']
      else if c = CHR 0x0D then [backslash, CHR ''r'']
      else if c = dquote then [backslash, dquote]
      else if c = backslash then [backslash, backslash]
      else if of_char c < (32::nat) then
        [backslash, CHR ''u'', CHR ''0'', CHR ''0'',
         hexDigit (of_char c div 16), hexDigit (of_char c mod 16)]
      else [c])"

definition quoteJSONString :: "string \<Rightarrow> string" where
  "quoteJSONString s = dquote # concat (map quoteChar s) @ [dquote]"

fun joinComma :: "string list \<Rightarrow> string" where
  "joinComma [] = []"
| "joinComma [x] = x"
| "joinComma (x # y # ys) = x @ '','' @ joinComma (y # ys)"

definition stringifyProperty :: "string \<times> string \<Rightarrow> string" where
  "stringifyProperty p = quoteJSONString (fst p) @ '':'' @ quoteJSONString (snd p)"

definition stringifyObject :: "js_object \<Rightarrow> string" where
  "stringifyObject obj = ''{'' @ joinComma (map stringifyProperty obj) @ ''}''"

definition stringifyReleases :: "js_object list \<Rightarrow> string" where
  \<comment> \<open>\<open>JSON.stringify(releases)\<close>\<close>
  "stringifyReleases rs = ''['' @ joinComma (map stringifyObject rs) @ '']''"

definition stripTrailingNewline :: "string \<Rightarrow> string" where
  \<comment> \<open>\<open>s.replace(/\n$/, '')\<close>: without the \<open>m\<close> flag \<open>$\<close> is the end of the text\<close>
  "stripTrailingNewline s = (if s \<noteq> [] \<and> last s = CHR 0x0A then butlast s else s)"

definition compareChangeSet :: "'a changeset_scheme \<Rightarrow> 'b changeset_scheme \<Rightarrow> bool" where
  "compareChangeSet a b =
     (stripTrailingNewline (summary a) = summary b \<and>
      stringifyReleases (releases a) = stringifyReleases (releases b))"

definition difference ::
  "'a changeset_scheme list \<Rightarrow> 'b changeset_scheme list \<Rightarrow> 'a changeset_scheme list" where
  "difference a b =
     filter (\<lambda>changeA. \<not> list_ex (\<lambda>changeB. compareChangeSet changeA changeB) b) a"

definition newChangesets ::
  "'a changeset_scheme list \<Rightarrow> 'b changeset_scheme list \<Rightarrow> 'a changeset_scheme list" where
  \<comment> \<open>in the entry point:
      \<open>currentChangesets.length === 0 ? changesets : difference(changesets, currentChangesets)\<close>\<close>
  "newChangesets changesets currentChangesets =
     (if length currentChangesets = 0 then changesets
      else difference changesets currentChangesets)"

section \<open>The words of the specification\<close>

text \<open>
  A breaking change, as the specification and the claims describe it: the message contains
  the text \<open>BREAKING CHANGE:\<close>, or a \<open>!\<close> stands before the colon of its type prefix, that
  is, the message starts with a type token, an optional parenthesized scope, \<open>!\<close> and a
  colon. The type prefix is the one \<open>getCommitType\<close> reads.
\<close>

definition breakingMarkerRest :: regex where
  \<comment> \<open>\<^verbatim>\<open>(\(.+\))?!:\<close>\<close>
  "breakingMarkerRest =
     Seq (Opt (Seq (Lit ''('') (Seq (Plus Dot) (Lit '')''))))
         (Seq (Lit ''!'') (Lit '':''))"

definition hasBreakingMarker :: "string \<Rightarrow> bool" where
  "hasBreakingMarker message =
     list_ex (matchesAtStart breakingMarkerRest) (run (Plus Word) message)"

definition breakingChange :: "string \<Rightarrow> bool" where
  "breakingChange message =
     (includesStr message ''BREAKING CHANGE:'' \<or> hasBreakingMarker message)"

definition ruleMatches :: "string \<Rightarrow> string \<Rightarrow> release_rule \<Rightarrow> bool" where
  \<comment> \<open>the rule asks for a breaking change and the message is one, or it asks for a revert and
      the message starts with \<open>revert\<close>, or its type is the extracted type token\<close>
  "ruleMatches message commitType rule =
     ((breaking rule \<and> breakingChange message) \<or>
      (revert rule \<and> startsWith message ''revert'') \<or>
      rule_type rule = Some commitType)"

definition compiles :: "'re environment \<Rightarrow> 're pattern \<Rightarrow> bool" where
  \<comment> \<open>the pattern is a \<open>RegExp\<close>, or a string that is a regular expression\<close>
  "compiles env pattern =
     (case pattern of PRegExp _ \<Rightarrow> True | PString text \<Rightarrow> regExpCreate env text \<noteq> None)"

section \<open>An environment for the examples\<close>

text \<open>
  The examples use the mocked \<open>execSync\<close> of the test suite: the repository root is
  \<open>/repo/root\<close>, the commits \<open>hash1\<close> to \<open>hash2\<close> change one file of \<open>package1\<close>, the commits
  \<open>hash3\<close> to \<open>hash4\<close> one file of \<open>package2\<close>, and any other range gives empty output, which
  \<open>split\<close> turns into one empty file name. The pattern texts of the examples are plain
  (letters, digits and \<open>/\<close>), which match where they occur, and \<open>*.lock\<close>, which is not a
  regular expression: its \<open>*\<close> has nothing to repeat.
\<close>

definition exampleEnvironment :: "string environment" where
  "exampleEnvironment =
     \<lparr>regExpCreate = (\<lambda>text. if text = ''*.lock'' then None else Some text),
      regExpMatch = (\<lambda>re file. includesStr file re),
      getRepoRoot = ''/repo/root'',
      getFilesChangedSince = (\<lambda>from to.
         if from = ''hash1'' \<and> to = ''hash2'' then [''packages/package1/file1.ts'']
         else if from = ''hash3'' \<and> to = ''hash4'' then [''packages/package2/file2.ts'']
         else [''''])\<rparr>"

definition examplePackages :: "many_pkg_package list" where
  "examplePackages =
     [\<lparr>dir = ''packages/package1'', packageJson = \<lparr>pkg_name = ''package1''\<rparr>\<rparr>,
      \<lparr>dir = ''packages/package2'', packageJson = \<lparr>pkg_name = ''package2''\<rparr>\<rparr>]"

section \<open>Properties of the grouper\<close>

lemma reducer_not_empty: "reducer acc cur \<noteq> []"
  by (simp add: reducer_def)

lemma associate_snoc:
  "associateCommitsToConventionalCommitMessages (cs @ [c]) =
     reducer (associateCommitsToConventionalCommitMessages cs) c"
  by (simp add: associateCommitsToConventionalCommitMessages_def)

lemma associate_not_empty:
  "cs \<noteq> [] \<Longrightarrow> associateCommitsToConventionalCommitMessages cs \<noteq> []"
  by (cases cs rule: rev_cases) (simp_all add: associate_snoc reducer_not_empty)

lemma concat_hashes_split:
  assumes "acc \<noteq> []"
  shows "concat (map commitHashes acc) =
           concat (map commitHashes (butlast acc)) @ commitHashes (last acc)"
proof -
  have "acc = butlast acc @ [last acc]" using assms by simp
  then have "concat (map commitHashes acc) =
               concat (map commitHashes (butlast acc @ [last acc]))" by simp
  then show ?thesis by simp
qed

lemma reducer_hashes:
  "concat (map commitHashes (reducer acc cur)) =
     concat (map commitHashes acc) @ [commitHash cur]"
proof (cases "acc = []")
  case True
  then show ?thesis by (simp add: reducer_def)
next
  case False
  then show ?thesis by (simp add: reducer_def concat_hashes_split)
qed

lemma reducer_hashes_nonempty:
  assumes "\<forall>u \<in> set acc. commitHashes u \<noteq> []"
  shows "\<forall>u \<in> set (reducer acc cur). commitHashes u \<noteq> []"
proof (cases "acc = []")
  case True
  then show ?thesis by (simp add: reducer_def)
next
  case False
  have "set (butlast acc) \<subseteq> set acc" by (auto dest: in_set_butlastD)
  with assms show ?thesis by (auto simp: reducer_def)
qed

lemma associate_hashes:
  "concat (map commitHashes (associateCommitsToConventionalCommitMessages cs)) =
     map commitHash cs"
proof (induction cs rule: rev_induct)
  case Nil
  show ?case by (simp add: associateCommitsToConventionalCommitMessages_def)
next
  case (snoc c cs)
  then show ?case by (simp add: associate_snoc reducer_hashes)
qed

lemma associate_hashes_nonempty:
  "\<forall>u \<in> set (associateCommitsToConventionalCommitMessages cs). commitHashes u \<noteq> []"
proof (induction cs rule: rev_induct)
  case Nil
  show ?case by (simp add: associateCommitsToConventionalCommitMessages_def)
next
  case (snoc c cs)
  then show ?case unfolding associate_snoc by (rule reducer_hashes_nonempty)
qed

text \<open>
  Claim C10. The grouper loses and duplicates no commit: the hash lists of the output units,
  concatenated in output order, are the hashes of the input commits in input order; every
  output unit has at least one hash; and the empty input gives the empty output.
\<close>

theorem grouper_partitions_hashes:
  "concat (map commitHashes (associateCommitsToConventionalCommitMessages cs)) = map commitHash cs
   \<and> (\<forall>u \<in> set (associateCommitsToConventionalCommitMessages cs). commitHashes u \<noteq> [])
   \<and> associateCommitsToConventionalCommitMessages [] = []"
proof (intro conjI)
  show "concat (map commitHashes (associateCommitsToConventionalCommitMessages cs)) = map commitHash cs"
    by (rule associate_hashes)
  show "\<forall>u \<in> set (associateCommitsToConventionalCommitMessages cs). commitHashes u \<noteq> []"
    by (rule associate_hashes_nonempty)
  show "associateCommitsToConventionalCommitMessages [] = []"
    by (simp add: associateCommitsToConventionalCommitMessages_def)
qed

theorem grouper_partitions_hashes_witness:
  "associateCommitsToConventionalCommitMessages
     [\<lparr>commitHash = ''h1'', commitMessage = ''wip''\<rparr>,
      \<lparr>commitHash = ''h2'', commitMessage = ''feat: add X''\<rparr>,
      \<lparr>commitHash = ''h3'', commitMessage = ''fix typo''\<rparr>,
      \<lparr>commitHash = ''h4'', commitMessage = ''fix: bug Y''\<rparr>]
     = [\<lparr>changelogMessage = ''feat: add X'', commitHashes = [''h1'', ''h2'', ''h3'']\<rparr>,
        \<lparr>changelogMessage = ''fix: bug Y'', commitHashes = [''h4'']\<rparr>]
   \<and> concat (map commitHashes (associateCommitsToConventionalCommitMessages
       [\<lparr>commitHash = ''h1'', commitMessage = ''wip''\<rparr>,
        \<lparr>commitHash = ''h2'', commitMessage = ''feat: add X''\<rparr>,
        \<lparr>commitHash = ''h3'', commitMessage = ''fix typo''\<rparr>,
        \<lparr>commitHash = ''h4'', commitMessage = ''fix: bug Y''\<rparr>]))
     = [''h1'', ''h2'', ''h3'', ''h4'']
   \<and> list_all (\<lambda>u. commitHashes u \<noteq> []) (associateCommitsToConventionalCommitMessages
       [\<lparr>commitHash = ''h1'', commitMessage = ''wip''\<rparr>,
        \<lparr>commitHash = ''h2'', commitMessage = ''feat: add X''\<rparr>,
        \<lparr>commitHash = ''h3'', commitMessage = ''fix typo''\<rparr>,
        \<lparr>commitHash = ''h4'', commitMessage = ''fix: bug Y''\<rparr>])"
proof -
  have run: "associateCommitsToConventionalCommitMessages
     [\<lparr>commitHash = ''h1'', commitMessage = ''wip''\<rparr>,
      \<lparr>commitHash = ''h2'', commitMessage = ''feat: add X''\<rparr>,
      \<lparr>commitHash = ''h3'', commitMessage = ''fix typo''\<rparr>,
      \<lparr>commitHash = ''h4'', commitMessage = ''fix: bug Y''\<rparr>]
     = [\<lparr>changelogMessage = ''feat: add X'', commitHashes = [''h1'', ''h2'', ''h3'']\<rparr>,
        \<lparr>changelogMessage = ''fix: bug Y'', commitHashes = [''h4'']\<rparr>]"
    by code_simp
  show ?thesis
    using grouper_partitions_hashes
      [of "[\<lparr>commitHash = ''h1'', commitMessage = ''wip''\<rparr>,
            \<lparr>commitHash = ''h2'', commitMessage = ''feat: add X''\<rparr>,
            \<lparr>commitHash = ''h3'', commitMessage = ''fix typo''\<rparr>,
            \<lparr>commitHash = ''h4'', commitMessage = ''fix: bug Y''\<rparr>]"]
    by (simp add: run)
qed

lemma associate_single:
  "associateCommitsToConventionalCommitMessages [c] =
     [\<lparr>changelogMessage = commitMessage c, commitHashes = [commitHash c]\<rparr>]"
  by (simp add: associateCommitsToConventionalCommitMessages_def reducer_def)

lemma find_snoc:
  "find P (xs @ [x]) = (case find P xs of Some y \<Rightarrow> Some y | None \<Rightarrow> if P x then Some x else None)"
  by (induction xs) simp_all

lemma first_unit_invariant:
  "cs \<noteq> [] \<Longrightarrow>
     associateCommitsToConventionalCommitMessages cs \<noteq> [] \<and>
     changelogMessage (hd (associateCommitsToConventionalCommitMessages cs)) =
       (case find isConventionalCommit (map commitMessage cs) of
          Some m \<Rightarrow> m | None \<Rightarrow> commitMessage (hd cs)) \<and>
     (isConventionalCommit (changelogMessage (last (associateCommitsToConventionalCommitMessages cs)))
        \<longleftrightarrow> find isConventionalCommit (map commitMessage cs) \<noteq> None) \<and>
     (1 < length (associateCommitsToConventionalCommitMessages cs) \<longrightarrow>
        isConventionalCommit (changelogMessage (last (associateCommitsToConventionalCommitMessages cs))))"
proof (induction cs rule: rev_induct)
  case Nil
  then show ?case by simp
next
  case (snoc c cs)
  show ?case
  proof (cases "cs = []")
    case True
    then show ?thesis by (simp add: associate_single)
  next
    case False
    define A where "A = associateCommitsToConventionalCommitMessages cs"
    from False snoc.IH have ne: "A \<noteq> []"
      and first: "changelogMessage (hd A) =
        (case find isConventionalCommit (map commitMessage cs) of
           Some m \<Rightarrow> m | None \<Rightarrow> commitMessage (hd cs))"
      and conv: "isConventionalCommit (changelogMessage (last A))
        \<longleftrightarrow> find isConventionalCommit (map commitMessage cs) \<noteq> None"
      and many: "1 < length A \<longrightarrow> isConventionalCommit (changelogMessage (last A))"
      unfolding A_def by blast+
    from ne obtain B l where A: "A = B @ [l]" by (cases A rule: rev_cases) auto
    have step: "associateCommitsToConventionalCommitMessages (cs @ [c]) = reducer A c"
      by (simp add: associate_snoc A_def)
    show ?thesis
    proof (cases "isConventionalCommit (commitMessage c)")
      case notconv: False
      then have r: "reducer A c = B @ [l\<lparr>commitHashes := commitHashes l @ [commitHash c]\<rparr>]"
        by (simp add: reducer_def A)
      from first conv many notconv False show ?thesis
        unfolding step r by (cases B) (auto simp: A find_snoc split: option.splits)
    next
      case isconv: True
      show ?thesis
      proof (cases "isConventionalCommit (changelogMessage l)")
        case True
        with isconv have r: "reducer A c =
            A @ [\<lparr>changelogMessage = commitMessage c, commitHashes = [commitHash c]\<rparr>]"
          by (simp add: reducer_def A)
        from first conv True isconv ne show ?thesis
          unfolding step r by (cases B) (auto simp: A find_snoc split: option.splits)
      next
        case False
        with many have B: "B = []" by (cases B) (simp_all add: A)
        from False isconv have r: "reducer A c =
            [\<lparr>changelogMessage = commitMessage c, commitHashes = commitHashes l @ [commitHash c]\<rparr>]"
          by (simp add: reducer_def A B)
        from conv False isconv show ?thesis
          unfolding step r by (auto simp: A B find_snoc split: option.splits)
      qed
    qed
  qed
qed

text \<open>
  Claim C1. After the first commit the accumulator is never empty, and a further commit is
  handled by one of three rules: a conventional commit after a conventional last unit opens
  a new unit with its own message and hash; a conventional commit after a last unit that is
  not conventional gives its message to that unit and adds its hash to it; a commit that is
  not conventional adds its hash to the last unit and leaves the message alone.
\<close>

theorem grouper_three_rules:
  assumes "cs \<noteq> []"
  shows "associateCommitsToConventionalCommitMessages cs \<noteq> [] \<and>
    (isConventionalCommit (commitMessage c) \<and>
     isConventionalCommit (changelogMessage (last (associateCommitsToConventionalCommitMessages cs)))
       \<longrightarrow> associateCommitsToConventionalCommitMessages (cs @ [c]) =
             associateCommitsToConventionalCommitMessages cs @
               [\<lparr>changelogMessage = commitMessage c, commitHashes = [commitHash c]\<rparr>]) \<and>
    (isConventionalCommit (commitMessage c) \<and>
     \<not> isConventionalCommit (changelogMessage (last (associateCommitsToConventionalCommitMessages cs)))
       \<longrightarrow> associateCommitsToConventionalCommitMessages (cs @ [c]) =
             butlast (associateCommitsToConventionalCommitMessages cs) @
               [\<lparr>changelogMessage = commitMessage c,
                 commitHashes = commitHashes (last (associateCommitsToConventionalCommitMessages cs))
                                  @ [commitHash c]\<rparr>]) \<and>
    (\<not> isConventionalCommit (commitMessage c)
       \<longrightarrow> associateCommitsToConventionalCommitMessages (cs @ [c]) =
             butlast (associateCommitsToConventionalCommitMessages cs) @
               [\<lparr>changelogMessage = changelogMessage (last (associateCommitsToConventionalCommitMessages cs)),
                 commitHashes = commitHashes (last (associateCommitsToConventionalCommitMessages cs))
                                  @ [commitHash c]\<rparr>])"
proof -
  have ne: "associateCommitsToConventionalCommitMessages cs \<noteq> []"
    using assms by (rule associate_not_empty)
  then show ?thesis by (simp add: associate_snoc reducer_def)
qed

theorem grouper_three_rules_witness:
  "associateCommitsToConventionalCommitMessages
     ([\<lparr>commitHash = ''h1'', commitMessage = ''feat: add X''\<rparr>] @
      [\<lparr>commitHash = ''h2'', commitMessage = ''fix: bug Y''\<rparr>])
     = [\<lparr>changelogMessage = ''feat: add X'', commitHashes = [''h1'']\<rparr>,
        \<lparr>changelogMessage = ''fix: bug Y'', commitHashes = [''h2'']\<rparr>]
   \<and> associateCommitsToConventionalCommitMessages
     ([\<lparr>commitHash = ''h1'', commitMessage = ''wip''\<rparr>] @
      [\<lparr>commitHash = ''h2'', commitMessage = ''feat: add X''\<rparr>])
     = [\<lparr>changelogMessage = ''feat: add X'', commitHashes = [''h1'', ''h2'']\<rparr>]
   \<and> associateCommitsToConventionalCommitMessages
     ([\<lparr>commitHash = ''h1'', commitMessage = ''feat: add X''\<rparr>] @
      [\<lparr>commitHash = ''h2'', commitMessage = ''wip''\<rparr>])
     = [\<lparr>changelogMessage = ''feat: add X'', commitHashes = [''h1'', ''h2'']\<rparr>]"
proof -
  have feat: "isConventionalCommit ''feat: add X''" by code_simp
  have bug: "isConventionalCommit ''fix: bug Y''" by code_simp
  have wip: "\<not> isConventionalCommit ''wip''" by code_simp
  have ne: "[\<lparr>commitHash = ''h1'', commitMessage = m\<rparr>] \<noteq> []" for m by simp
  note r1 = grouper_three_rules [OF ne, of "''feat: add X''"
      "\<lparr>commitHash = ''h2'', commitMessage = ''fix: bug Y''\<rparr>"]
  note r2 = grouper_three_rules [OF ne, of "''wip''"
      "\<lparr>commitHash = ''h2'', commitMessage = ''feat: add X''\<rparr>"]
  note r3 = grouper_three_rules [OF ne, of "''feat: add X''"
      "\<lparr>commitHash = ''h2'', commitMessage = ''wip''\<rparr>"]
  from r1 feat bug have
    "associateCommitsToConventionalCommitMessages
     ([\<lparr>commitHash = ''h1'', commitMessage = ''feat: add X''\<rparr>] @
      [\<lparr>commitHash = ''h2'', commitMessage = ''fix: bug Y''\<rparr>])
     = [\<lparr>changelogMessage = ''feat: add X'', commitHashes = [''h1'']\<rparr>,
        \<lparr>changelogMessage = ''fix: bug Y'', commitHashes = [''h2'']\<rparr>]"
    by (simp add: associate_single)
  moreover from r2 feat wip have
    "associateCommitsToConventionalCommitMessages
     ([\<lparr>commitHash = ''h1'', commitMessage = ''wip''\<rparr>] @
      [\<lparr>commitHash = ''h2'', commitMessage = ''feat: add X''\<rparr>])
     = [\<lparr>changelogMessage = ''feat: add X'', commitHashes = [''h1'', ''h2'']\<rparr>]"
    by (simp add: associate_single)
  moreover from r3 feat wip have
    "associateCommitsToConventionalCommitMessages
     ([\<lparr>commitHash = ''h1'', commitMessage = ''feat: add X''\<rparr>] @
      [\<lparr>commitHash = ''h2'', commitMessage = ''wip''\<rparr>])
     = [\<lparr>changelogMessage = ''feat: add X'', commitHashes = [''h1'', ''h2'']\<rparr>]"
    by (simp add: associate_single)
  ultimately show ?thesis by (intro conjI)
qed

text \<open>
  Claim C5, as amended. For a commit sequence that is not empty the first unit exists. Its
  message is the message of the earliest conventional commit of the sequence; when no commit
  is conventional it is the first commit's message. So it is the first commit's message when
  that one is conventional or none is.
\<close>

theorem first_unit_message:
  assumes "cs \<noteq> []"
  shows "\<exists>u us. associateCommitsToConventionalCommitMessages cs = u # us \<and>
           changelogMessage u =
             (case find isConventionalCommit (map commitMessage cs) of
                Some m \<Rightarrow> m | None \<Rightarrow> commitMessage (hd cs))"
proof -
  from assms first_unit_invariant [of cs]
  have ne: "associateCommitsToConventionalCommitMessages cs \<noteq> []"
    and m: "changelogMessage (hd (associateCommitsToConventionalCommitMessages cs)) =
       (case find isConventionalCommit (map commitMessage cs) of
          Some m \<Rightarrow> m | None \<Rightarrow> commitMessage (hd cs))"
    by simp_all
  from ne obtain u us where "associateCommitsToConventionalCommitMessages cs = u # us"
    by (cases "associateCommitsToConventionalCommitMessages cs") auto
  with m show ?thesis by simp
qed

theorem first_unit_message_witness:
  "[\<lparr>commitHash = ''h1'', commitMessage = ''wip''\<rparr>,
    \<lparr>commitHash = ''h2'', commitMessage = ''fix typo''\<rparr>] \<noteq> []
   \<and> (\<exists>u us. associateCommitsToConventionalCommitMessages
         [\<lparr>commitHash = ''h1'', commitMessage = ''wip''\<rparr>,
          \<lparr>commitHash = ''h2'', commitMessage = ''fix typo''\<rparr>] = u # us
        \<and> changelogMessage u = ''wip'')"
proof -
  have wip: "\<not> isConventionalCommit ''wip''" by code_simp
  have typo: "\<not> isConventionalCommit ''fix typo''" by code_simp
  have ne: "[\<lparr>commitHash = ''h1'', commitMessage = ''wip''\<rparr>,
             \<lparr>commitHash = ''h2'', commitMessage = ''fix typo''\<rparr>] \<noteq> []" by simp
  from first_unit_message [OF ne] wip typo show ?thesis by simp
qed

theorem first_unit_message_counterexample:
  "associateCommitsToConventionalCommitMessages [] = []
   \<and> map changelogMessage (associateCommitsToConventionalCommitMessages
        [\<lparr>commitHash = ''h1'', commitMessage = ''wip''\<rparr>,
         \<lparr>commitHash = ''h2'', commitMessage = ''feat: add X''\<rparr>]) = [''feat: add X'']"
proof -
  have "associateCommitsToConventionalCommitMessages
        [\<lparr>commitHash = ''h1'', commitMessage = ''wip''\<rparr>,
         \<lparr>commitHash = ''h2'', commitMessage = ''feat: add X''\<rparr>]
        = [\<lparr>changelogMessage = ''feat: add X'', commitHashes = [''h1'', ''h2'']\<rparr>]"
    by code_simp
  then show ?thesis by (simp add: associateCommitsToConventionalCommitMessages_def)
qed

section \<open>What the patterns accept\<close>

lemma bang_colon_after_any_text:
  "(\<exists>x \<in> set (repeat Dot r). run (Seq (Opt (Lit ''!'')) (Lit '':'')) x \<noteq> [])
     \<longleftrightarrow> CHR '':'' \<in> set (takeWhile (\<lambda>c. \<not> lineTerminator c) r)"
proof (induction r)
  case Nil
  show ?case by (simp add: startsWith_def)
next
  case (Cons c s)
  show ?case
  proof (cases "lineTerminator c")
    case True
    then show ?thesis by (auto simp: startsWith_def lineTerminator_def)
  next
    case False
    have here: "run (Seq (Opt (Lit ''!'')) (Lit '':'')) (c # s) \<noteq> []
                 \<longleftrightarrow> c = CHR '':'' \<or> (c = CHR ''!'' \<and> (\<exists>s'. s = CHR '':'' # s'))"
      by (cases s) (auto simp: startsWith_def)
    have colon: "\<not> lineTerminator (CHR '':'')" by (simp add: lineTerminator_def)
    from False have "(\<exists>x \<in> set (repeat Dot (c # s)). run (Seq (Opt (Lit ''!'')) (Lit '':'')) x \<noteq> [])
        \<longleftrightarrow> (\<exists>x \<in> set (repeat Dot s). run (Seq (Opt (Lit ''!'')) (Lit '':'')) x \<noteq> [])
            \<or> run (Seq (Opt (Lit ''!'')) (Lit '':'')) (c # s) \<noteq> []"
      by auto
    also have "\<dots> \<longleftrightarrow> CHR '':'' \<in> set (takeWhile (\<lambda>c. \<not> lineTerminator c) s)
            \<or> c = CHR '':'' \<or> (c = CHR ''!'' \<and> (\<exists>s'. s = CHR '':'' # s'))"
      by (simp only: Cons.IH here)
    also have "\<dots> \<longleftrightarrow> CHR '':'' \<in> set (takeWhile (\<lambda>c. \<not> lineTerminator c) (c # s))"
      using False colon by auto
    finally show ?thesis .
  qed
qed

lemma self_in_repeat: "r \<in> set (repeat C r)"
  by (cases r) simp_all

lemma run_Seq_nonempty:
  "run (Seq a b) s \<noteq> [] \<longleftrightarrow> (\<exists>x \<in> set (run a s). run b x \<noteq> [])"
  by simp

lemma conventionalPattern_accepts:
  "matchesAtStart (conventionalPattern t) message \<longleftrightarrow>
     startsWith message t \<and>
     CHR '':'' \<in> set (takeWhile (\<lambda>c. \<not> lineTerminator c) (drop (length t) message))"
proof (cases "startsWith message t")
  case False
  then show ?thesis by (simp add: matchesAtStart_def conventionalPattern_def)
next
  case True
  define r where "r = drop (length t) message"
  define rest where "rest = Seq (Opt (Lit ''!'')) (Lit '':'')"
  have "matchesAtStart (conventionalPattern t) message \<longleftrightarrow>
          (\<exists>x \<in> set (run (Opt (Star Dot)) r). run rest x \<noteq> [])"
    unfolding matchesAtStart_def conventionalPattern_def rest_def [symmetric] run_Seq_nonempty
    using True by (simp add: r_def)
  also have "\<dots> \<longleftrightarrow> (\<exists>x \<in> set (repeat Dot r). run rest x \<noteq> [])"
    using self_in_repeat [of r Dot] by auto
  also have "\<dots> \<longleftrightarrow> CHR '':'' \<in> set (takeWhile (\<lambda>c. \<not> lineTerminator c) r)"
    unfolding rest_def by (rule bang_colon_after_any_text)
  finally show ?thesis using True by (simp add: r_def)
qed

lemma isConventionalCommit_accepts:
  "isConventionalCommit message \<longleftrightarrow>
     (\<exists>t \<in> set (map ct_type defaultCommitTypes).
        startsWith message t \<and>
        CHR '':'' \<in> set (takeWhile (\<lambda>c. \<not> lineTerminator c) (drop (length t) message)))"
  by (simp add: isConventionalCommit_def list_ex_iff conventionalPattern_accepts)

lemma commitTypeRest_first_char:
  "matchesAtStart commitTypeRest r \<Longrightarrow> r \<noteq> [] \<and> \<not> wordChar (hd r)"
  by (cases r) (auto simp: matchesAtStart_def commitTypeRest_def startsWith_def wordChar_def
        split: if_splits)

lemma find_after_word_run:
  assumes "\<And>r. Q r \<Longrightarrow> r \<noteq> [] \<and> \<not> wordChar (hd r)"
  shows "find Q (repeat Word s) =
           (if Q (dropWhile wordChar s) then Some (dropWhile wordChar s) else None)"
proof (induction s)
  case Nil
  show ?case using assms [of "[]"] by auto
next
  case (Cons c s)
  show ?case
  proof (cases "wordChar c")
    case True
    with assms [of "c # s"] have "\<not> Q (c # s)" by auto
    with True Cons.IH show ?thesis by (simp add: find_snoc)
  next
    case False
    then show ?thesis by simp
  qed
qed

lemma getCommitType_longest_word:
  "getCommitType message =
     (if takeWhile wordChar message \<noteq> [] \<and>
         matchesAtStart commitTypeRest (dropWhile wordChar message)
      then Some (takeWhile wordChar message) else None)"
proof (cases message)
  case Nil
  then show ?thesis by (simp add: getCommitType_def)
next
  case (Cons c s)
  show ?thesis
  proof (cases "wordChar c")
    case False
    with Cons show ?thesis by (simp add: getCommitType_def)
  next
    case True
    have len: "Suc (length s) - length (dropWhile wordChar s) = Suc (length (takeWhile wordChar s))"
    proof -
      have "length (takeWhile wordChar s) + length (dropWhile wordChar s) = length s"
        by (metis length_append takeWhile_dropWhile_id)
      then show ?thesis by simp
    qed
    have "take (length (takeWhile wordChar s)) s = takeWhile wordChar s"
      by (metis append_eq_conv_conj takeWhile_dropWhile_id)
    with len have grp: "take (Suc (length s) - length (dropWhile wordChar s)) (c # s)
                          = c # takeWhile wordChar s"
      by simp
    from True Cons show ?thesis
      by (simp add: getCommitType_def find_after_word_run [OF commitTypeRest_first_char] grp)
  qed
qed

section \<open>Properties of the classifier\<close>

lemma repeat_length: "r \<in> set (repeat C s) \<Longrightarrow> length r \<le> length s"
  by (induction s) (auto split: if_splits)

lemma run_Plus_shorter: "r \<in> set (run (Plus C) s) \<Longrightarrow> length r < length s"
  by (cases s) (auto split: if_splits dest: repeat_length)

lemma find_Some_in_set: "find P xs = Some x \<Longrightarrow> x \<in> set xs"
  by (induction xs) (auto split: if_splits)

lemma getCommitType_not_empty:
  assumes "getCommitType message = Some t"
  shows "t \<noteq> []"
proof -
  from assms obtain rest
    where f: "find (matchesAtStart commitTypeRest) (run (Plus Word) message) = Some rest"
      and t: "t = take (length message - length rest) message"
    by (auto simp: getCommitType_def split: option.splits)
  from f have "rest \<in> set (run (Plus Word) message)"
    by (rule find_Some_in_set)
  then have "length rest < length message" by (rule run_Plus_shorter)
  with t show ?thesis by auto
qed

lemma applyRules_find:
  assumes "t \<noteq> []"
  shows "applyRules message t rules =
           (case find (\<lambda>rule. (breaking rule \<and> isBreakingChange message) \<or>
                             (revert rule \<and> isRevertChange message) \<or>
                             rule_type rule = Some t) rules of
              None \<Rightarrow> None | Some rule \<Rightarrow> release rule)"
  using assms
  by (induction rules) (auto split: option.splits)

lemma repeat_set:
  "x \<in> set (repeat C s) \<longleftrightarrow> (\<exists>p. s = p @ x \<and> (\<forall>c \<in> set p. in_cls C c))"
proof (induction s)
  case Nil
  show ?case by auto
next
  case (Cons c s)
  show ?case
  proof (cases "in_cls C c")
    case False
    have "(\<exists>p. c # s = p @ x \<and> (\<forall>d \<in> set p. in_cls C d)) \<longleftrightarrow> x = c # s"
    proof
      assume "\<exists>p. c # s = p @ x \<and> (\<forall>d \<in> set p. in_cls C d)"
      then obtain p where p: "c # s = p @ x" "\<forall>d \<in> set p. in_cls C d" by blast
      with False show "x = c # s" by (cases p) auto
    qed auto
    with False show ?thesis by auto
  next
    case True
    have "(\<exists>p. c # s = p @ x \<and> (\<forall>d \<in> set p. in_cls C d))
            \<longleftrightarrow> x = c # s \<or> (\<exists>q. s = q @ x \<and> (\<forall>d \<in> set q. in_cls C d))"
    proof
      assume "\<exists>p. c # s = p @ x \<and> (\<forall>d \<in> set p. in_cls C d)"
      then obtain p where p: "c # s = p @ x" "\<forall>d \<in> set p. in_cls C d" by blast
      then show "x = c # s \<or> (\<exists>q. s = q @ x \<and> (\<forall>d \<in> set q. in_cls C d))"
        by (cases p) auto
    next
      assume "x = c # s \<or> (\<exists>q. s = q @ x \<and> (\<forall>d \<in> set q. in_cls C d))"
      then show "\<exists>p. c # s = p @ x \<and> (\<forall>d \<in> set p. in_cls C d)"
      proof
        assume "x = c # s"
        then have "c # s = [] @ x \<and> (\<forall>d \<in> set []. in_cls C d)" by simp
        then show ?thesis by blast
      next
        assume "\<exists>q. s = q @ x \<and> (\<forall>d \<in> set q. in_cls C d)"
        then obtain q where "s = q @ x" "\<forall>d \<in> set q. in_cls C d" by blast
        with True have "c # s = (c # q) @ x \<and> (\<forall>d \<in> set (c # q). in_cls C d)" by simp
        then show ?thesis by blast
      qed
    qed
    with True Cons.IH show ?thesis by auto
  qed
qed

lemma includesStr_suffix: "startsWith x q \<Longrightarrow> includesStr (p @ x) q"
proof (induction p)
  case Nil
  then show ?case by (cases x) (auto simp: startsWith_def)
next
  case (Cons c p)
  then show ?case by simp
qed

lemma bang_colon_starts:
  "run (Seq (Lit ''!'') (Lit '':'')) x \<noteq> [] \<longleftrightarrow> startsWith x ''!:''"
  by (cases x; cases "tl x") (auto simp: startsWith_def)

lemma breakingMarkerRest_first_char:
  "matchesAtStart breakingMarkerRest r \<Longrightarrow> r \<noteq> [] \<and> \<not> wordChar (hd r)"
  by (cases r) (auto simp: matchesAtStart_def breakingMarkerRest_def startsWith_def wordChar_def
        split: if_splits)

lemma find_None_list_ex: "find Q xs = None \<longleftrightarrow> \<not> list_ex Q xs"
  by (induction xs) auto

lemma hasBreakingMarker_longest_word:
  "hasBreakingMarker message \<longleftrightarrow>
     takeWhile wordChar message \<noteq> [] \<and>
     matchesAtStart breakingMarkerRest (dropWhile wordChar message)"
proof (cases message)
  case Nil
  then show ?thesis by (simp add: hasBreakingMarker_def)
next
  case (Cons c s)
  show ?thesis
  proof (cases "wordChar c")
    case False
    with Cons show ?thesis by (simp add: hasBreakingMarker_def)
  next
    case True
    have "list_ex (matchesAtStart breakingMarkerRest) (repeat Word s)
            \<longleftrightarrow> find (matchesAtStart breakingMarkerRest) (repeat Word s) \<noteq> None"
      by (simp add: find_None_list_ex)
    also have "\<dots> \<longleftrightarrow> matchesAtStart breakingMarkerRest (dropWhile wordChar s)"
      by (simp add: find_after_word_run [OF breakingMarkerRest_first_char])
    finally show ?thesis using True Cons by (simp add: hasBreakingMarker_def)
  qed
qed

lemma run_Seq_set:
  "y \<in> set (run (Seq a b) s) \<longleftrightarrow> (\<exists>z \<in> set (run a s). y \<in> set (run b z))"
  by auto

lemma run_Lit_char: "y \<in> set (run (Lit [c]) s) \<longleftrightarrow> s = c # y"
  by (cases s) (auto simp: startsWith_def)

lemma marker_reaches_bang:
  assumes "matchesAtStart breakingMarkerRest r"
  shows "\<exists>x \<in> set (repeat Dot r). startsWith x ''!:''"
proof -
  from assms obtain y
    where y: "y \<in> set (run (Opt (Seq (Lit ''('') (Seq (Plus Dot) (Lit '')'')))) r)"
      and b: "run (Seq (Lit ''!'') (Lit '':'')) y \<noteq> []"
    unfolding matchesAtStart_def breakingMarkerRest_def run_Seq_nonempty by blast
  from b have sb: "startsWith y ''!:''" by (simp only: bang_colon_starts)
  from y have "y = r \<or> y \<in> set (run (Seq (Lit ''('') (Seq (Plus Dot) (Lit '')''))) r)"
    by (simp only: run.simps(4) set_append) auto
  then show ?thesis
  proof
    assume "y = r"
    with sb self_in_repeat [of r Dot] show ?thesis by blast
  next
    assume "y \<in> set (run (Seq (Lit ''('') (Seq (Plus Dot) (Lit '')''))) r)"
    then obtain r1 z where r1: "r1 \<in> set (run (Lit ''('') r)"
      and z: "z \<in> set (run (Plus Dot) r1)" and zy: "y \<in> set (run (Lit '')'') z)"
      unfolding run_Seq_set by blast
    from r1 have r: "r = CHR ''('' # r1" by (simp only: run_Lit_char)
    from zy have zy': "z = CHR '')'' # y" by (simp only: run_Lit_char)
    from z obtain c r2 where r1': "r1 = c # r2" and c: "in_cls Dot c" and z2: "z \<in> set (repeat Dot r2)"
      by (cases r1) (auto split: if_splits)
    from z2 obtain p where p: "r2 = p @ z" "\<forall>d \<in> set p. in_cls Dot d"
      unfolding repeat_set by blast
    have "r = (CHR ''('' # c # p @ [CHR '')'']) @ y"
      using r r1' p(1) zy' by simp
    moreover have "\<forall>d \<in> set (CHR ''('' # c # p @ [CHR '')'']). in_cls Dot d"
      using c p(2) by (auto simp: lineTerminator_def)
    ultimately have "y \<in> set (repeat Dot r)" unfolding repeat_set by blast
    with sb show ?thesis by blast
  qed
qed

lemma type_of_marked_message_is_breaking:
  assumes t: "getCommitType message = Some t"
    and known: "t \<in> set (map ct_type defaultCommitTypes)"
    and marker: "hasBreakingMarker message"
  shows "isBreakingChange message"
proof -
  from t have tw: "t = takeWhile wordChar message"
    by (simp add: getCommitType_longest_word split: if_splits)
  then have m: "message = t @ dropWhile wordChar message" by simp
  from marker have "matchesAtStart breakingMarkerRest (dropWhile wordChar message)"
    by (simp add: hasBreakingMarker_longest_word)
  then obtain x where x: "x \<in> set (repeat Dot (dropWhile wordChar message))"
    and sx: "startsWith x ''!:''"
    using marker_reaches_bang by blast
  have st: "startsWith message t" using m by (metis append_eq_conv_conj startsWith_def)
  have dr: "drop (length t) message = dropWhile wordChar message"
    using m by (metis append_eq_conv_conj)
  define rest where "rest = Seq (Lit ''!'') (Lit '':'')"
  from sx have nb: "run rest x \<noteq> []" unfolding rest_def by (simp only: bang_colon_starts)
  from x have "x \<in> set (run (Opt (Star Dot)) (drop (length t) message))"
    unfolding dr by simp
  with nb have "\<exists>y \<in> set (run (Opt (Star Dot)) (drop (length t) message)). run rest y \<noteq> []"
    by blast
  with st have "matchesAtStart (breakingPattern t) message"
    unfolding matchesAtStart_def breakingPattern_def rest_def [symmetric] run_Seq_nonempty
    by simp
  with known show ?thesis
    by (auto simp: isBreakingChange_def list_ex_iff)
qed

lemma run_Lit_suffix: "y \<in> set (run (Lit t) s) \<Longrightarrow> s = t @ y"
  by (auto simp: startsWith_def split: if_splits) (metis append_take_drop_id)

lemma breaking_pattern_needs_bang:
  assumes "matchesAtStart (breakingPattern t) message"
  shows "includesStr message ''!:''"
proof -
  from assms obtain y x
    where y: "y \<in> set (run (Lit t) message)"
      and x: "x \<in> set (run (Opt (Star Dot)) y)"
      and b: "run (Seq (Lit ''!'') (Lit '':'')) x \<noteq> []"
    unfolding matchesAtStart_def breakingPattern_def run_Seq_nonempty by blast
  from y have m: "message = t @ y" by (rule run_Lit_suffix)
  from x self_in_repeat [of y Dot] have "x \<in> set (repeat Dot y)" by auto
  then obtain p where "y = p @ x" by (auto simp: repeat_set)
  with m have "message = (t @ p) @ x" by simp
  moreover from b have "startsWith x ''!:''" by (simp only: bang_colon_starts)
  ultimately show ?thesis by (metis includesStr_suffix)
qed

lemma marker_needs_bang:
  assumes "hasBreakingMarker message"
  shows "includesStr message ''!:''"
proof -
  from assms have "matchesAtStart breakingMarkerRest (dropWhile wordChar message)"
    by (simp add: hasBreakingMarker_longest_word)
  then obtain x where x: "x \<in> set (repeat Dot (dropWhile wordChar message))"
    and sx: "startsWith x ''!:''"
    using marker_reaches_bang by blast
  from x obtain p where "dropWhile wordChar message = p @ x" by (auto simp: repeat_set)
  then have "message = (takeWhile wordChar message @ p) @ x"
    by (metis append_assoc takeWhile_dropWhile_id)
  with sx show ?thesis by (metis includesStr_suffix)
qed

lemma breaking_tests_agree:
  assumes t: "getCommitType message = Some t"
    and dom: "includesStr message ''BREAKING CHANGE:'' \<or>
              (hasBreakingMarker message \<and> t \<in> set (map ct_type defaultCommitTypes)) \<or>
              \<not> includesStr message ''!:''"
  shows "isBreakingChange message \<longleftrightarrow> breakingChange message"
proof (cases "includesStr message ''BREAKING CHANGE:''")
  case True
  then show ?thesis by (simp add: isBreakingChange_def breakingChange_def)
next
  case lit: False
  show ?thesis
  proof (cases "includesStr message ''!:''")
    case True
    with lit dom have mk: "hasBreakingMarker message"
      and known: "t \<in> set (map ct_type defaultCommitTypes)" by auto
    from t known mk have "isBreakingChange message" by (rule type_of_marked_message_is_breaking)
    with mk show ?thesis by (simp add: breakingChange_def)
  next
    case False
    then have "\<not> hasBreakingMarker message" using marker_needs_bang by blast
    moreover from False have "\<not> isBreakingChange message"
      using lit breaking_pattern_needs_bang by (auto simp: isBreakingChange_def list_ex_iff)
    ultimately show ?thesis using lit by (simp add: breakingChange_def)
  qed
qed

lemma breaking_rule_first:
  assumes "breakingChange message"
  shows "find (ruleMatches message t) defaultReleaseRules =
           Some \<lparr>breaking = True, revert = False, rule_type = None, release = Some Major\<rparr>"
  using assms by (simp add: defaultReleaseRules_def ruleMatches_def)

lemma determineReleaseType_first_match:
  assumes t: "getCommitType message = Some t"
    and agree: "isBreakingChange message \<longleftrightarrow> breakingChange message"
  shows "determineReleaseType message None =
           (case find (ruleMatches message t) defaultReleaseRules of
              None \<Rightarrow> None | Some rule \<Rightarrow> release rule)"
proof -
  from t have ne: "t \<noteq> []" by (rule getCommitType_not_empty)
  have same: "(\<lambda>rule. (breaking rule \<and> isBreakingChange message) \<or>
                      (revert rule \<and> isRevertChange message) \<or>
                      rule_type rule = Some t) = ruleMatches message t"
    by (rule ext) (simp add: ruleMatches_def agree isRevertChange_def)
  from t ne show ?thesis
    by (simp add: determineReleaseType_def applyRules_find same)
qed

text \<open>
  Claim C2, as amended. Take a message with an extractable type token that contains the text
  \<open>BREAKING CHANGE:\<close>, or has a \<open>!\<close> before the colon of its type prefix and a type token
  among the twelve types, or contains no \<open>!:\<close> at all. On the default table the classifier
  returns the severity of the first rule in table order that matches it, and no release when
  none matches; since the breaking rule is first, the message is major when it is a breaking
  change. The message \<open>feat!: break API\<close> is major. A message with no extractable type token
  is no release, breaking or not.
\<close>

theorem classifier_first_matching_rule:
  "(getCommitType message = Some t \<and>
      (includesStr message ''BREAKING CHANGE:'' \<or>
       (hasBreakingMarker message \<and> t \<in> set (map ct_type defaultCommitTypes)) \<or>
       \<not> includesStr message ''!:'')
    \<longrightarrow> determineReleaseType message None =
          (case find (ruleMatches message t) defaultReleaseRules of
             None \<Rightarrow> None | Some rule \<Rightarrow> release rule) \<and>
        (breakingChange message \<longrightarrow> determineReleaseType message None = Some Major)) \<and>
   (getCommitType message = None \<longrightarrow> determineReleaseType message None = None) \<and>
   determineReleaseType ''feat!: break API'' None = Some Major"
proof (intro conjI impI)
  assume h: "getCommitType message = Some t \<and>
      (includesStr message ''BREAKING CHANGE:'' \<or>
       (hasBreakingMarker message \<and> t \<in> set (map ct_type defaultCommitTypes)) \<or>
       \<not> includesStr message ''!:'')"
  then have agree: "isBreakingChange message \<longleftrightarrow> breakingChange message"
    using breaking_tests_agree by blast
  with h show first: "determineReleaseType message None =
          (case find (ruleMatches message t) defaultReleaseRules of
             None \<Rightarrow> None | Some rule \<Rightarrow> release rule)"
    using determineReleaseType_first_match by blast
  assume "breakingChange message"
  then show "determineReleaseType message None = Some Major"
    by (simp add: first breaking_rule_first)
next
  assume "getCommitType message = None"
  then show "determineReleaseType message None = None"
    by (simp add: determineReleaseType_def)
next
  show "determineReleaseType ''feat!: break API'' None = Some Major" by code_simp
qed

theorem classifier_first_matching_rule_witness:
  "getCommitType ''fix(parser)!: drop the old API'' = Some ''fix''
   \<and> hasBreakingMarker ''fix(parser)!: drop the old API''
   \<and> ''fix'' \<in> set (map ct_type defaultCommitTypes)
   \<and> determineReleaseType ''fix(parser)!: drop the old API'' None = Some Major
   \<and> getCommitType ''docs: describe the options'' = Some ''docs''
   \<and> \<not> includesStr ''docs: describe the options'' ''!:''
   \<and> find (ruleMatches ''docs: describe the options'' ''docs'') defaultReleaseRules
       = Some (typeRule ''docs'' Patch)
   \<and> determineReleaseType ''docs: describe the options'' None = Some Patch
   \<and> getCommitType ''update the docs'' = None
   \<and> determineReleaseType ''update the docs'' None = None"
proof -
  have t: "getCommitType ''fix(parser)!: drop the old API'' = Some ''fix''" by code_simp
  have mk: "hasBreakingMarker ''fix(parser)!: drop the old API''" by code_simp
  have known: "''fix'' \<in> set (map ct_type defaultCommitTypes)" by code_simp
  have d: "getCommitType ''docs: describe the options'' = Some ''docs''" by code_simp
  have nb: "\<not> includesStr ''docs: describe the options'' ''!:''" by code_simp
  have nbr: "\<not> breakingChange ''docs: describe the options''" by code_simp
  have f: "find (ruleMatches ''docs: describe the options'' ''docs'') defaultReleaseRules
       = Some (typeRule ''docs'' Patch)"
    using nbr by (simp add: defaultReleaseRules_def ruleMatches_def typeRule_def startsWith_def)
  have n: "getCommitType ''update the docs'' = None" by code_simp
  from mk have br: "breakingChange ''fix(parser)!: drop the old API''"
    by (simp add: breakingChange_def)
  from t mk known br
    classifier_first_matching_rule [of "''fix(parser)!: drop the old API''" "''fix''"]
  have major: "determineReleaseType ''fix(parser)!: drop the old API'' None = Some Major"
    by blast
  from d nb classifier_first_matching_rule [of "''docs: describe the options''" "''docs''"]
  have "determineReleaseType ''docs: describe the options'' None =
          (case find (ruleMatches ''docs: describe the options'' ''docs'') defaultReleaseRules of
             None \<Rightarrow> None | Some rule \<Rightarrow> release rule)"
    by blast
  then have patch: "determineReleaseType ''docs: describe the options'' None = Some Patch"
    by (simp add: f typeRule_def)
  from n classifier_first_matching_rule [of "''update the docs''" "''x''"]
  have none: "determineReleaseType ''update the docs'' None = None"
    by blast
  from t mk known major d nb f patch n none show ?thesis by (intro conjI)
qed

theorem breaking_not_major_counterexample:
  "breakingChange ''BREAKING CHANGE: drop the old API''
   \<and> determineReleaseType ''BREAKING CHANGE: drop the old API'' None = None
   \<and> breakingChange ''unknown!: drop the old API''
   \<and> getCommitType ''unknown!: drop the old API'' = Some ''unknown''
   \<and> determineReleaseType ''unknown!: drop the old API'' None = None"
proof -
  have "breakingChange ''BREAKING CHANGE: drop the old API''" by code_simp
  moreover have "determineReleaseType ''BREAKING CHANGE: drop the old API'' None = None"
    by code_simp
  moreover have "breakingChange ''unknown!: drop the old API''" by code_simp
  moreover have "getCommitType ''unknown!: drop the old API'' = Some ''unknown''" by code_simp
  moreover have "determineReleaseType ''unknown!: drop the old API'' None = None" by code_simp
  ultimately show ?thesis by (intro conjI)
qed

text \<open>
  Claim C6. The predicate accepts a message in which other text stands between the type
  prefix and the colon: the text of the pattern is \<^verbatim>\<open>^fix(?:(.*))?!?:\<close>, and \<open>.*\<close> takes
  \<open>ed the build\<close>.
\<close>

theorem conventional_accepts_text_before_colon:
  "isConventionalCommit ''fixed the build: retry twice''"
  by code_simp

section \<open>Properties of the impact resolver and the assembler\<close>

lemma noPatternMatches_Inr:
  "noPatternMatches env file patterns = Inr keep \<Longrightarrow>
     keep = (\<not> list_ex (\<lambda>p. jsMatch env file p = Inr True) patterns)"
  by (induction patterns) (auto split: sum.splits if_splits)

lemma noPatternMatches_compiled:
  "\<forall>p \<in> set patterns. compiles env p \<Longrightarrow> \<exists>keep. noPatternMatches env file patterns = Inr keep"
proof (induction patterns)
  case Nil
  show ?case by auto
next
  case (Cons p patterns)
  then have "compiles env p" by simp
  then obtain found where "jsMatch env file p = Inr found"
    by (cases p) (auto simp: compiles_def jsMatch_def)
  with Cons show ?case by auto
qed

lemma filterFiles_Inr:
  "filterFiles env files patterns = Inr kept \<Longrightarrow>
     kept = filter (\<lambda>file. \<not> list_ex (\<lambda>p. jsMatch env file p = Inr True) patterns) files"
proof (induction files arbitrary: kept)
  case Nil
  then show ?case by simp
next
  case (Cons f fs)
  from Cons.prems obtain keep rest
    where k: "noPatternMatches env f patterns = Inr keep"
      and r: "filterFiles env fs patterns = Inr rest"
      and kept: "kept = (if keep then f # rest else rest)"
    by (auto split: sum.splits)
  from k have "keep = (\<not> list_ex (\<lambda>p. jsMatch env f p = Inr True) patterns)"
    by (rule noPatternMatches_Inr)
  moreover from r have
    "rest = filter (\<lambda>file. \<not> list_ex (\<lambda>p. jsMatch env file p = Inr True) patterns) fs"
    by (rule Cons.IH)
  ultimately show ?case using kept by simp
qed

lemma filterFiles_compiled:
  assumes "\<forall>p \<in> set patterns. compiles env p"
  shows "\<exists>kept. filterFiles env files patterns = Inr kept"
proof (induction files)
  case Nil
  show ?case by auto
next
  case (Cons f fs)
  from assms obtain keep where "noPatternMatches env f patterns = Inr keep"
    using noPatternMatches_compiled by blast
  with Cons show ?case by auto
qed

lemma someFileMatches_Inr:
  "someFileMatches env files pattern = Inr touched \<Longrightarrow>
     touched = list_ex (\<lambda>file. jsMatch env file pattern = Inr True) files"
  by (induction files) (auto split: sum.splits if_splits)

lemma getChangedPackages_Inr:
  "getChangedPackages env files pkgs = Inr changed \<Longrightarrow>
     changed = filter (\<lambda>pkg. list_ex (\<lambda>file. jsMatch env file (packagePattern env pkg) = Inr True) files) pkgs"
proof (induction pkgs arbitrary: changed)
  case Nil
  then show ?case by simp
next
  case (Cons pkg pkgs)
  from Cons.prems obtain touched rest
    where t: "someFileMatches env files (packagePattern env pkg) = Inr touched"
      and r: "getChangedPackages env files pkgs = Inr rest"
      and c: "changed = (if touched then pkg # rest else rest)"
    by (auto split: sum.splits)
  from t have "touched = list_ex (\<lambda>file. jsMatch env file (packagePattern env pkg) = Inr True) files"
    by (rule someFileMatches_Inr)
  moreover from r have
    "rest = filter (\<lambda>pkg. list_ex (\<lambda>file. jsMatch env file (packagePattern env pkg) = Inr True) files) pkgs"
    by (rule Cons.IH)
  ultimately show ?case using c by simp
qed

text \<open>
  Claim C8, as amended. When every ignore pattern is a \<open>RegExp\<close> or a string that is a
  regular expression, the filter returns, for every file list, exactly the files that match
  none of the patterns. Whenever the filter returns, its result is exactly those files, a
  sub-list of the input, and a package is not among the packages reported as changed when
  every changed file that matches the package is ignored.
\<close>

theorem filterFiles_drops_any_match:
  "((\<forall>p \<in> set ignoredPatterns. compiles env p) \<longrightarrow>
      filterFiles env files ignoredPatterns =
        Inr (filter (\<lambda>file. \<not> list_ex (\<lambda>p. jsMatch env file p = Inr True) ignoredPatterns) files))
   \<and> (filterFiles env files ignoredPatterns = Inr kept \<longrightarrow>
        kept = filter (\<lambda>file. \<not> list_ex (\<lambda>p. jsMatch env file p = Inr True) ignoredPatterns) files
        \<and> subseq kept files
        \<and> (getChangedPackages env kept pkgs = Inr changed \<and>
            (\<forall>file \<in> set files.
               jsMatch env file (PString (replaceFirst (getRepoRoot env @ ''/'') [] (dir pkg))) = Inr True
                 \<longrightarrow> list_ex (\<lambda>p. jsMatch env file p = Inr True) ignoredPatterns)
             \<longrightarrow> pkg \<notin> set changed))"
proof (intro conjI impI)
  assume "\<forall>p \<in> set ignoredPatterns. compiles env p"
  then obtain kept' where k: "filterFiles env files ignoredPatterns = Inr kept'"
    using filterFiles_compiled by blast
  then have "kept' = filter (\<lambda>file. \<not> list_ex (\<lambda>p. jsMatch env file p = Inr True) ignoredPatterns) files"
    by (rule filterFiles_Inr)
  with k show "filterFiles env files ignoredPatterns =
        Inr (filter (\<lambda>file. \<not> list_ex (\<lambda>p. jsMatch env file p = Inr True) ignoredPatterns) files)"
    by simp
next
  assume "filterFiles env files ignoredPatterns = Inr kept"
  then show keep: "kept = filter (\<lambda>file. \<not> list_ex (\<lambda>p. jsMatch env file p = Inr True) ignoredPatterns) files"
    by (rule filterFiles_Inr)
  then show "subseq kept files" by simp
  assume h: "getChangedPackages env kept pkgs = Inr changed \<and>
            (\<forall>file \<in> set files.
               jsMatch env file (PString (replaceFirst (getRepoRoot env @ ''/'') [] (dir pkg))) = Inr True
                 \<longrightarrow> list_ex (\<lambda>p. jsMatch env file p = Inr True) ignoredPatterns)"
  then have "changed = filter (\<lambda>pkg. list_ex (\<lambda>file. jsMatch env file (packagePattern env pkg) = Inr True) kept) pkgs"
    using getChangedPackages_Inr by blast
  with h keep show "pkg \<notin> set changed"
    by (auto simp: packagePattern_def list_ex_iff)
qed

theorem filterFiles_drops_any_match_witness:
  "list_all (compiles exampleEnvironment) [PString ''README'', PString ''lock'']
   \<and> filterFiles exampleEnvironment
      [''packages/package1/yarn.lock'', ''packages/package2/file2.ts'']
      [PString ''README'', PString ''lock'']
     = Inr [''packages/package2/file2.ts'']
   \<and> jsMatch exampleEnvironment ''packages/package1/yarn.lock'' (PString ''lock'') = Inr True
   \<and> jsMatch exampleEnvironment ''packages/package2/file2.ts'' (PString ''packages/package1'')
       = Inr False
   \<and> getChangedPackages exampleEnvironment [''packages/package2/file2.ts''] examplePackages
       = Inr [examplePackages ! 1]
   \<and> hd examplePackages \<notin> set [examplePackages ! 1]"
proof -
  have comp: "\<forall>p \<in> set [PString ''README'', PString ''lock'']. compiles exampleEnvironment p"
    by (simp add: compiles_def exampleEnvironment_def)
  have ignored: "jsMatch exampleEnvironment ''packages/package1/yarn.lock'' (PString ''lock'') = Inr True"
    by code_simp
  have other: "jsMatch exampleEnvironment ''packages/package2/file2.ts'' (PString ''packages/package1'')
       = Inr False"
    by code_simp
  have kept: "filter (\<lambda>file. \<not> list_ex (\<lambda>p. jsMatch exampleEnvironment file p = Inr True)
                         [PString ''README'', PString ''lock''])
                [''packages/package1/yarn.lock'', ''packages/package2/file2.ts'']
              = [''packages/package2/file2.ts'']"
    by code_simp
  have changed: "getChangedPackages exampleEnvironment [''packages/package2/file2.ts''] examplePackages
       = Inr [examplePackages ! 1]"
    by code_simp
  have pat: "replaceFirst (getRepoRoot exampleEnvironment @ ''/'') [] (dir (hd examplePackages))
               = ''packages/package1''"
    by code_simp
  note inst = filterFiles_drops_any_match
    [of "[PString ''README'', PString ''lock'']" exampleEnvironment
        "[''packages/package1/yarn.lock'', ''packages/package2/file2.ts'']"
        "[''packages/package2/file2.ts'']" examplePackages "[examplePackages ! 1]"
        "hd examplePackages"]
  from inst [THEN conjunct1, THEN mp, OF comp] kept
  have f: "filterFiles exampleEnvironment
      [''packages/package1/yarn.lock'', ''packages/package2/file2.ts'']
      [PString ''README'', PString ''lock'']
     = Inr [''packages/package2/file2.ts'']"
    by simp
  have covered: "\<forall>file \<in> set [''packages/package1/yarn.lock'', ''packages/package2/file2.ts''].
      jsMatch exampleEnvironment file
        (PString (replaceFirst (getRepoRoot exampleEnvironment @ ''/'') [] (dir (hd examplePackages))))
        = Inr True
      \<longrightarrow> list_ex (\<lambda>p. jsMatch exampleEnvironment file p = Inr True)
            [PString ''README'', PString ''lock'']"
    unfolding pat using ignored other by simp
  from inst [THEN conjunct2, THEN mp, OF f, THEN conjunct2, THEN conjunct2, THEN mp]
    changed covered
  have "hd examplePackages \<notin> set [examplePackages ! 1]" by blast
  with comp f ignored other changed show ?thesis by (simp add: list_all_iff)
qed

theorem filterFiles_throws_counterexample:
  "filterFiles exampleEnvironment [''yarn.lock''] [PString ''*.lock''] = Inl SyntaxError"
  by code_simp

lemma mapEntries_single:
  "mapEntries env opts [entry] =
     (case toChangeset env opts entry of Inl e \<Rightarrow> Inl e | Inr r \<Rightarrow> Inr [r])"
  by (simp split: sum.splits)






section \<open>The serialisation of releases determines them\<close>
















section \<open>Properties of the deduplication\<close>



lemma difference_empty_baseline: "difference a [] = a"
  by (simp add: difference_def)





text \<open>
  Claim C9. Against an empty baseline the comparison keeps every candidate, so the entry
  point's shortcut for an empty baseline returns what the comparison would return.
\<close>

theorem empty_baseline_shortcut:
  "difference candidates [] = candidates
   \<and> newChangesets candidates current = difference candidates current"
  by (cases current) (simp_all add: newChangesets_def difference_def)



end
